theory Spec2Isabelle
  imports Main
begin

section \<open>Boggle and Inverse Boggle: the board, the word finder, the scorer, the hill climber\<close>

text \<open>
  The development embeds the Python of \<^verbatim>\<open>ipynb/Boggle.ipynb\<close>. A Python exception is a
  value of type \<open>error\<close> on the left of a sum; a dict whose finiteness matters is an
  association list; the random module is replaced by numbers supplied from outside.
\<close>

datatype error = TypeError | IndexError | KeyError

type_synonym square = "int \<times> int"

subsection \<open>Python string comparison\<close>

text \<open>
  \<^verbatim>\<open>a <= b\<close> on Python strings is lexicographic on code points, a proper prefix being
  smaller. Characters are restricted to the 256 values of \<open>char\<close>.
\<close>

fun str_le :: "string \<Rightarrow> string \<Rightarrow> bool" where
  "str_le [] _ = True"
| "str_le (c # cs) [] = False"
| "str_le (c # cs) (d # ds) =
     ((of_char c :: nat) < of_char d \<or> (c = d \<and> str_le cs ds))"

subsection \<open>The board\<close>

text \<open>
  \<^verbatim>\<open>int(len(letters) ** 0.5)\<close>: the integer part of the square root, here computed exactly
  on the naturals. The rounding of the floating-point power is not modelled; it cannot
  change the integer part for a list short enough to fit in memory.
\<close>

fun isqrt :: "nat \<Rightarrow> nat" where
  "isqrt 0 = 0"
| "isqrt (Suc m) = (let r = isqrt m in if (r + 1) * (r + 1) \<le> Suc m then r + 1 else r)"

text \<open>
  \<^verbatim>\<open>
  def neighbors(square, n) -> list:
      (x, y) = square
      return [(x+dx, y+dy) for dx in (-1, 0, 1) for dy in (-1, 0, 1)
              if 0 <= x+dx < n and 0 <= y+dy < n and not (dx == dy == 0)]
  \<close>
\<close>

fun neighbors :: "square \<Rightarrow> nat \<Rightarrow> square list" where
  "neighbors (x, y) n =
     [(x + dx, y + dy). dx \<leftarrow> [-1, 0, 1], dy \<leftarrow> [-1, 0, 1],
        0 \<le> x + dx \<and> x + dx < int n \<and> 0 \<le> y + dy \<and> y + dy < int n
        \<and> \<not> (dx = dy \<and> dy = 0)]"

text \<open>
  A board is a dict from squares to tiles that also carries \<^verbatim>\<open>squares\<close> (row-major) and
  \<^verbatim>\<open>neighbors\<close> (a dict from each square to its neighbour list). The \<^verbatim>\<open>format\<close> attribute
  only serves printing and is left out.
\<close>

record Board =
  squares :: "square list"
  board_neighbors :: "(square \<times> square list) list"
  tiles :: "square \<rightharpoonup> string"

definition row_major :: "nat \<Rightarrow> square list" where
  "row_major n = [(int x, int y). y \<leftarrow> [0..<n], x \<leftarrow> [0..<n]]"

definition keep_letters :: "string list \<Rightarrow> string list" where
  "keep_letters ls =
     [if L = ''Q'' then ''QU'' else L. L \<leftarrow> ls, str_le ''A'' L \<and> str_le L ''Z'']"

text \<open>
  \<^verbatim>\<open>
  def __init__(self, letters=None):
      letters = [('QU' if L == 'Q' else L) for L in letters if 'A' <= L <= 'Z']
      n = int(len(letters) ** 0.5)
      self.squares   = [(x, y) for y in range(n) for x in range(n)]
      self.neighbors = {s: neighbors(s, n) for s in self.squares}
      self.update(zip(self.squares, letters))
  \<close>
  With the default \<^verbatim>\<open>letters=None\<close> the comprehension raises TypeError.
\<close>

fun Board_init :: "string list option \<Rightarrow> error + Board" where
  "Board_init None = Inl TypeError"
| "Board_init (Some ls) =
     (let letters = keep_letters ls;
          n = isqrt (length letters);
          sq = row_major n
      in Inr \<lparr>squares = sq,
              board_neighbors = map (\<lambda>s. (s, neighbors s n)) sq,
              tiles = Map.empty(sq [\<mapsto>] letters)\<rparr>)"

subsection \<open>The word list and scoring\<close>

text \<open>
  \<^verbatim>\<open>scores=[0, 0, 0, 1, 1, 2, 3, 5] + [11] * 99\<close>
\<close>

definition scores :: "int list" where
  "scores = [0, 0, 0, 1, 1, 2, 3, 5] @ replicate 99 11"

text \<open>
  \<^verbatim>\<open>
  def total_score(found, scores=...) -> int:
      return sum([scores[len(w)] for w in found & WORDS])
  \<close>
  \<^verbatim>\<open>WORDS\<close> is the global word set, here a parameter. \<^verbatim>\<open>scores[len(w)]\<close> raises
  IndexError past the end of the table.
\<close>

definition total_score :: "string set \<Rightarrow> string set \<Rightarrow> error + int" where
  "total_score found WORDS =
     (if \<exists>w \<in> found \<inter> WORDS. length scores \<le> length w then Inl IndexError
      else Inr (\<Sum>w \<in> found \<inter> WORDS. scores ! length w))"

text \<open>
  \<^verbatim>\<open>WORDS = {w for w in open('enable1.txt').read().upper().split() if len(w) >= 3}\<close>,
  as a function of the token list \<^verbatim>\<open>open('enable1.txt').read().upper().split()\<close>.
\<close>

definition WORDS_of :: "string list \<Rightarrow> string set" where
  "WORDS_of tokens = {w \<in> set tokens. 3 \<le> length w}"

text \<open>
  \<^verbatim>\<open>
  def word_prefixes(words) -> set:
      return {word[:i] for word in words for i in range(1, len(word))}
  \<close>
\<close>

definition word_prefixes :: "string set \<Rightarrow> string set" where
  "word_prefixes words = (\<Union>word \<in> words. (\<lambda>i. take i word) ` {1..<length word})"

subsection \<open>Finding all the words in a board\<close>

text \<open>Every square that occurs in some neighbour list of the board: a finite set.\<close>

definition listed :: "Board \<Rightarrow> square set" where
  "listed b = (\<Union>kv \<in> set (board_neighbors b). set (snd kv))"

text \<open>
  \<^verbatim>\<open>
  def find_words(board, words=WORDS, prefixes=PREFIXES):
      found = set()
      def continue_path(path, prefix):
          if prefix in words:
              found.add(prefix)
          if prefix in prefixes:
              for s in board.neighbors[path[-1]]:
                  if s not in path:
                      continue_path(path + [s], prefix + board[s])
      for s in board.squares:
          continue_path([s], board[s])
      return found
  \<close>
  The set \<^verbatim>\<open>found\<close> is threaded through the calls. \<open>for_neighbors\<close> is the inner
  \<^verbatim>\<open>for\<close> loop over the rest of a neighbour list; a KeyError or IndexError ends the search.
\<close>

function continue_path ::
    "Board \<Rightarrow> string set \<Rightarrow> string set \<Rightarrow> square list \<Rightarrow> string \<Rightarrow> string set
      \<Rightarrow> error + string set"
  and for_neighbors ::
    "Board \<Rightarrow> string set \<Rightarrow> string set \<Rightarrow> square list \<Rightarrow> square list \<Rightarrow> string
      \<Rightarrow> string set \<Rightarrow> error + string set"
where
  "continue_path b words prefixes path prefix found =
     (let found1 = (if prefix \<in> words then insert prefix found else found) in
      if prefix \<in> prefixes then
        (if path = [] then Inl IndexError
         else case map_of (board_neighbors b) (last path) of
                None \<Rightarrow> Inl KeyError
              | Some ns \<Rightarrow> for_neighbors b words prefixes ns path prefix found1)
      else Inr found1)"
| "for_neighbors b words prefixes [] path prefix found = Inr found"
| "for_neighbors b words prefixes (s # ss) path prefix found =
     (if s \<notin> set path then
        (case tiles b s of
           None \<Rightarrow> Inl KeyError
         | Some t \<Rightarrow>
             (case continue_path b words prefixes (path @ [s]) (prefix @ t) found of
                Inl e \<Rightarrow> Inl e
              | Inr found' \<Rightarrow> for_neighbors b words prefixes ss path prefix found'))
      else for_neighbors b words prefixes ss path prefix found)"
  by pat_completeness auto

text \<open>
  Each call of \<open>continue_path\<close> from the loop adds to the path a square that is not on
  it, and the squares still to come all lie in a finite set: those of the neighbour lists
  together with the rest of the list being traversed.
\<close>

termination
proof (relation "measures
    [\<lambda>a. case a of
        Inl (b, ws, ps, path, prefix, found) \<Rightarrow> card (listed b - set path)
      | Inr (b, ws, ps, ns, path, prefix, found) \<Rightarrow> card ((listed b \<union> set ns) - set path),
     \<lambda>a. case a of Inl _ \<Rightarrow> 1 | Inr _ \<Rightarrow> 0,
     \<lambda>a. case a of Inl _ \<Rightarrow> 0 | Inr (b, ws, ps, ns, path, prefix, found) \<Rightarrow> length ns]",
    goal_cases)
  case 1
  show ?case by simp
next
  case (2 b ws ps path prefix found found1 ns)
  from \<open>map_of (board_neighbors b) (last path) = Some ns\<close>
  have "(last path, ns) \<in> set (board_neighbors b)" by (rule map_of_SomeD)
  then have "set ns \<subseteq> listed b" unfolding listed_def by force
  then have "listed b \<union> set ns = listed b" by blast
  then show ?case by simp
next
  case (3 b ws ps s ss path prefix found t)
  have fin: "finite ((listed b \<union> set (s # ss)) - set path)"
    unfolding listed_def by simp
  have "listed b - set (path @ [s]) \<subset> (listed b \<union> set (s # ss)) - set path"
    using \<open>s \<notin> set path\<close> by auto
  from psubset_card_mono [OF fin this] show ?case by simp
next
  case (4 b ws ps s ss path prefix found t found')
  have fin: "finite ((listed b \<union> set (s # ss)) - set path)"
    unfolding listed_def by simp
  have "(listed b \<union> set ss) - set path \<subseteq> (listed b \<union> set (s # ss)) - set path"
    by auto
  from card_mono [OF fin this] show ?case by auto
next
  case (5 b ws ps s ss path prefix found)
  have fin: "finite ((listed b \<union> set (s # ss)) - set path)"
    unfolding listed_def by simp
  have "(listed b \<union> set ss) - set path \<subseteq> (listed b \<union> set (s # ss)) - set path"
    by auto
  from card_mono [OF fin this] show ?case by auto
qed

text \<open>The body of \<^verbatim>\<open>find_words\<close>: the loop over \<^verbatim>\<open>board.squares\<close>.\<close>

fun for_squares ::
    "Board \<Rightarrow> string set \<Rightarrow> string set \<Rightarrow> square list \<Rightarrow> string set
      \<Rightarrow> error + string set" where
  "for_squares b words prefixes [] found = Inr found"
| "for_squares b words prefixes (s # ss) found =
     (case tiles b s of
        None \<Rightarrow> Inl KeyError
      | Some t \<Rightarrow>
          (case continue_path b words prefixes [s] t found of
             Inl e \<Rightarrow> Inl e
           | Inr found' \<Rightarrow> for_squares b words prefixes ss found'))"

definition find_words :: "Board \<Rightarrow> string set \<Rightarrow> string set \<Rightarrow> error + string set" where
  "find_words b words prefixes = for_squares b words prefixes (squares b) {}"

text \<open>\<^verbatim>\<open>total_score(find_words(board, words, prefixes))\<close>, as the hill climber calls it.\<close>

definition board_score ::
    "Board \<Rightarrow> string set \<Rightarrow> string set \<Rightarrow> string set \<Rightarrow> error + int" where
  "board_score b words prefixes WORDS =
     (case find_words b words prefixes of
        Inl e \<Rightarrow> Inl e
      | Inr found \<Rightarrow> total_score found WORDS)"

subsection \<open>Inverse Boggle\<close>

text \<open>
  \<^verbatim>\<open>LETTERS = 3 * 'AABCDEEEGHIILMNOOPRSTUY' + 'AADEFFIJKKLLNNQRSSTTUVVWWXZ'\<close>
\<close>

definition LETTERS :: string where
  "LETTERS = concat (replicate 3 ''AABCDEEEGHIILMNOOPRSTUY'') @ ''AADEFFIJKKLLNNQRSSTTUVVWWXZ''"

text \<open>
  \<^verbatim>\<open>random.choice(seq)\<close> raises IndexError on an empty sequence and otherwise returns
  the element at a random index below \<^verbatim>\<open>len(seq)\<close>. The random number \<open>r\<close> comes from
  outside and is reduced modulo the length, so that every \<open>r\<close> is a possible draw and
  every index is drawn by some \<open>r\<close>.
\<close>

definition choice :: "'a list \<Rightarrow> nat \<Rightarrow> error + 'a" where
  "choice seq r = (if seq = [] then Inl IndexError else Inr (seq ! (r mod length seq)))"

text \<open>
  \<^verbatim>\<open>
  def mutate_boggle(board, letters=LETTERS):
      s = random.choice(board.squares)
      old_letter = board[s]
      board[s] = random.choice(letters)
      return s, old_letter
  \<close>
  The board is mutated in place, so the model returns it with the two results.
\<close>

definition mutate_boggle :: "Board \<Rightarrow> nat \<times> nat \<Rightarrow> error + (Board \<times> square \<times> string)" where
  "mutate_boggle b r =
     (case choice (squares b) (fst r) of
        Inl e \<Rightarrow> Inl e
      | Inr s \<Rightarrow>
          (case tiles b s of
             None \<Rightarrow> Inl KeyError
           | Some old_letter \<Rightarrow>
               (case choice LETTERS (snd r) of
                  Inl e \<Rightarrow> Inl e
                | Inr c \<Rightarrow> Inr (b\<lparr>tiles := (tiles b)(s \<mapsto> [c])\<rparr>, s, old_letter))))"

text \<open>\<^verbatim>\<open>board[s] for s in board.squares\<close>: the tiles in row-major order, or a KeyError.\<close>

fun tiles_in_order :: "Board \<Rightarrow> square list \<Rightarrow> error + string list" where
  "tiles_in_order b [] = Inr []"
| "tiles_in_order b (s # ss) =
     (case tiles b s of
        None \<Rightarrow> Inl KeyError
      | Some t \<Rightarrow> (case tiles_in_order b ss of Inl e \<Rightarrow> Inl e | Inr ts \<Rightarrow> Inr (t # ts)))"

text \<open>
  One pass of the loop of \<^verbatim>\<open>boggle_hill_climbing\<close>, on the board and the best score:
  \<^verbatim>\<open>
      s, old_letter = mutate_boggle(board)
      new_score = total_score(find_words(board, words, prefixes))
      if new_score >= best_score:
          best_score = new_score
      else:
          board[s] = old_letter  # Change back
  \<close>
\<close>

definition hill_step ::
    "string set \<Rightarrow> string set \<Rightarrow> string set \<Rightarrow> nat \<times> nat \<Rightarrow> Board \<times> int
      \<Rightarrow> error + (Board \<times> int)" where
  "hill_step words prefixes WORDS r st =
     (case mutate_boggle (fst st) r of
        Inl e \<Rightarrow> Inl e
      | Inr (b1, s, old_letter) \<Rightarrow>
          (case board_score b1 words prefixes WORDS of
             Inl e \<Rightarrow> Inl e
           | Inr new_score \<Rightarrow>
               if new_score \<ge> snd st then Inr (b1, new_score)
               else Inr (b1\<lparr>tiles := (tiles b1)(s \<mapsto> old_letter)\<rparr>, snd st)))"

text \<open>
  \<^verbatim>\<open>for _ in range(repeat)\<close>; pass \<open>i\<close> of the loop draws the pair \<open>rnd i\<close>.
\<close>

fun hill_loop ::
    "nat \<Rightarrow> string set \<Rightarrow> string set \<Rightarrow> string set \<Rightarrow> (nat \<Rightarrow> nat \<times> nat) \<Rightarrow> Board \<times> int
      \<Rightarrow> error + (Board \<times> int)" where
  "hill_loop 0 words prefixes WORDS rnd st = Inr st"
| "hill_loop (Suc k) words prefixes WORDS rnd st =
     (case hill_step words prefixes WORDS (rnd 0) st of
        Inl e \<Rightarrow> Inl e
      | Inr st' \<Rightarrow> hill_loop k words prefixes WORDS (\<lambda>i. rnd (Suc i)) st')"

text \<open>
  \<^verbatim>\<open>
  def boggle_hill_climbing(board, words=WORDS, prefixes=PREFIXES, repeat=500):
      board = Board(board[s] for s in board.squares) # Copy board, so we don't mutate original
      best_score = total_score(find_words(board, words, prefixes))
      for _ in range(repeat):
          ...
      return board
  \<close>
\<close>

definition boggle_hill_climbing ::
    "Board \<Rightarrow> string set \<Rightarrow> string set \<Rightarrow> string set \<Rightarrow> nat \<Rightarrow> (nat \<Rightarrow> nat \<times> nat)
      \<Rightarrow> error + Board" where
  "boggle_hill_climbing board words prefixes WORDS repeat rnd =
     (case tiles_in_order board (squares board) of
        Inl e \<Rightarrow> Inl e
      | Inr ts \<Rightarrow>
          (case Board_init (Some ts) of
             Inl e \<Rightarrow> Inl e
           | Inr b \<Rightarrow>
               (case board_score b words prefixes WORDS of
                  Inl e \<Rightarrow> Inl e
                | Inr best_score \<Rightarrow>
                    (case hill_loop repeat words prefixes WORDS rnd (b, best_score) of
                       Inl e \<Rightarrow> Inl e
                     | Inr st \<Rightarrow> Inr (fst st)))))"

subsection \<open>The payout of the specification\<close>

text \<open>
  The payout by word length as the specification words it: 0 for lengths 0 to 2, then
  1, 1, 2, 3, 5 for lengths 3 to 7, and 11 for every length from 8 on. It is stated apart
  from the table \<open>scores\<close> of the code, to be compared with it.
\<close>

definition payout :: "nat \<Rightarrow> int" where
  "payout len = (if len \<le> 2 then 0 else if len = 3 then 1 else if len = 4 then 1
     else if len = 5 then 2 else if len = 6 then 3 else if len = 7 then 5 else 11)"

subsection \<open>Notions the properties are stated with\<close>

text \<open>
  A board of size \<open>n\<close>: its squares are the \<open>n\<close> by \<open>n\<close> squares in row-major order, its
  neighbour dict maps each of them to \<open>neighbors s n\<close>, and exactly these squares carry a
  tile. \<open>Board_init\<close> builds such boards, and \<open>mutate_boggle\<close> and the hill climber
  keep them so (lemmas \<open>Board_init_board_of_size\<close>, \<open>mutate_boggle_board_of_size\<close> and
  \<open>boggle_hill_climbing_board_of_size\<close> below).
\<close>

definition board_of_size :: "nat \<Rightarrow> Board \<Rightarrow> bool" where
  "board_of_size n b =
     (squares b = row_major n
      \<and> board_neighbors b = map (\<lambda>s. (s, neighbors s n)) (row_major n)
      \<and> dom (tiles b) = set (row_major n))"

text \<open>
  Paths on the grid: a square is in bounds; two squares are adjacent when both are in
  bounds, they differ, and their Chebyshev distance is 1; a path is a non-empty sequence
  of squares in bounds, none repeated, each adjacent to the next. A path spells the
  concatenation of the tiles on it.
\<close>

definition in_grid :: "nat \<Rightarrow> square \<Rightarrow> bool" where
  "in_grid n s = (0 \<le> fst s \<and> fst s < int n \<and> 0 \<le> snd s \<and> snd s < int n)"

definition adjacent :: "nat \<Rightarrow> square \<Rightarrow> square \<Rightarrow> bool" where
  "adjacent n s s' =
     (in_grid n s \<and> in_grid n s' \<and> s \<noteq> s'
      \<and> max \<bar>fst s - fst s'\<bar> \<bar>snd s - snd s'\<bar> = 1)"

definition is_path :: "nat \<Rightarrow> square list \<Rightarrow> bool" where
  "is_path n path = (path \<noteq> [] \<and> distinct path \<and> list_all (in_grid n) path \<and> successively (adjacent n) path)"

definition spells :: "Board \<Rightarrow> square list \<Rightarrow> string \<Rightarrow> bool" where
  "spells b path w = (\<exists>ts. map (tiles b) path = map Some ts \<and> w = concat ts)"

definition spelled :: "nat \<Rightarrow> Board \<Rightarrow> string \<Rightarrow> bool" where
  "spelled n b w = (\<exists>path. is_path n path \<and> spells b path w)"

text \<open>
  A well-formed tile is one letter from A to Z, or the two letters QU. \<open>kept_as_is\<close> are
  the strings that the comprehension of \<open>Board_init\<close> passes through unchanged.
\<close>

definition tile_ok :: "string \<Rightarrow> bool" where
  "tile_ok t = (t = ''QU'' \<or> (\<exists>c \<in> set ''ABCDEFGHIJKLMNOPQRSTUVWXYZ''. t = [c]))"

definition tiles_ok :: "Board \<Rightarrow> bool" where
  "tiles_ok b = (\<forall>t \<in> ran (tiles b). tile_ok t)"

definition kept_as_is :: "string \<Rightarrow> bool" where
  "kept_as_is t = (t \<noteq> ''Q'' \<and> str_le ''A'' t \<and> str_le t ''Z'')"

text \<open>
  A board for examples: the 2 by 2 board with rows \<open>Q A\<close> and \<open>T S\<close>, as the hill
  climber can leave it.
\<close>

definition qat_board :: Board where
  "qat_board =
     \<lparr>squares = row_major 2,
      board_neighbors = map (\<lambda>s. (s, neighbors s 2)) (row_major 2),
      tiles = [(0, 0) \<mapsto> ''Q'', (1, 0) \<mapsto> ''A'', (0, 1) \<mapsto> ''T'', (1, 1) \<mapsto> ''S'']\<rparr>"

section \<open>Properties\<close>

declare neighbors.simps [simp del]
declare continue_path.simps [simp del]

subsection \<open>Square roots, row-major squares, the tile dict\<close>

lemma isqrt_bounds: "isqrt m * isqrt m \<le> m \<and> m < (isqrt m + 1) * (isqrt m + 1)"
  by (induction m) (auto simp: Let_def)

lemma isqrt_unique:
  assumes lo: "r * r \<le> m" and hi: "m < (r + 1) * (r + 1)"
  shows "isqrt m = r"
proof -
  let ?q = "isqrt m"
  have a: "?q * ?q \<le> m" and b: "m < (?q + 1) * (?q + 1)"
    using isqrt_bounds [of m] by auto
  have "\<not> ?q < r"
  proof
    assume "?q < r"
    then have h: "?q + 1 \<le> r" by arith
    from mult_le_mono [OF h h] lo b show False by linarith
  qed
  moreover have "\<not> r < ?q"
  proof
    assume "r < ?q"
    then have h: "r + 1 \<le> ?q" by arith
    from mult_le_mono [OF h h] a hi show False by linarith
  qed
  ultimately show ?thesis by arith
qed

lemma isqrt_square: "isqrt (n * n) = n"
  by (rule isqrt_unique) auto

lemma set_row_major: "set (row_major n) = {(x, y). 0 \<le> x \<and> x < int n \<and> 0 \<le> y \<and> y < int n}"
  apply (auto simp: row_major_def)
  subgoal for x y
    by (rule bexI [of _ "nat y"], auto intro: image_eqI [of _ _ "nat x"])
  done

lemma length_row_major: "length (row_major n) = n * n"
  by (simp add: row_major_def length_concat comp_def sum_list_triv)

lemma distinct_row_major: "distinct (row_major n)"
  unfolding row_major_def
  by (rule distinct_concat) (auto simp: distinct_map inj_on_def)

lemma in_grid_row_major: "s \<in> set (row_major n) \<longleftrightarrow> in_grid n s"
  by (cases s) (simp add: set_row_major in_grid_def)

lemma row_major_2: "row_major 2 = [(0, 0), (1, 0), (0, 1), (1, 1)]"
  by code_simp

lemma upds_nth:
  "distinct xs \<Longrightarrow> i < length xs \<Longrightarrow> i < length ys \<Longrightarrow> (m(xs [\<mapsto>] ys)) (xs ! i) = Some (ys ! i)"
proof (induction xs arbitrary: m ys i)
  case Nil
  then show ?case by simp
next
  case (Cons x xs)
  then obtain y ys' where ys: "ys = y # ys'" by (cases ys) auto
  show ?case
  proof (cases i)
    case 0
    with Cons.prems ys show ?thesis by (simp add: map_upds_apply_nontin)
  next
    case (Suc j)
    with Cons.prems ys have "xs ! j \<noteq> x" by (metis Suc_less_eq distinct.simps(2) length_Cons nth_mem)
    with Cons Suc ys show ?thesis by simp
  qed
qed

lemma upds_Some:
  "(m(xs [\<mapsto>] ys)) k = Some v \<Longrightarrow> m k = Some v \<or> v \<in> set ys"
proof (induction xs arbitrary: m ys)
  case Nil
  then show ?case by simp
next
  case (Cons x xs)
  show ?case
  proof (cases ys)
    case Nil
    with Cons.prems show ?thesis by simp
  next
    case (Cons y ys')
    with Cons.prems have "((m(x \<mapsto> y))(xs [\<mapsto>] ys')) k = Some v" by simp
    from Cons.IH [OF this] Cons show ?thesis by (auto split: if_splits)
  qed
qed

lemma map_of_tabulate: "map_of (map (\<lambda>s. (s, f s)) xs) k = (if k \<in> set xs then Some (f k) else None)"
  by (induction xs) auto

lemma choice_mem: "choice xs r = Inr x \<Longrightarrow> x \<in> set xs"
  by (auto simp: choice_def split: if_splits)

subsection \<open>Neighbours are the adjacent squares\<close>

lemma set_comprehension:
  "set [(x + dx, y + dy). dx \<leftarrow> ds, dy \<leftarrow> es, P dx dy] =
     {(x + dx, y + dy) | dx dy. dx \<in> set ds \<and> dy \<in> set es \<and> P dx dy}"
  by auto

lemma neighbors_iff:
  "(x', y') \<in> set (neighbors (x, y) n) \<longleftrightarrow>
     (\<exists>dx dy. dx \<in> {-1, 0, 1} \<and> dy \<in> {-1, 0, 1}
        \<and> x' = x + dx \<and> y' = y + dy
        \<and> 0 \<le> x + dx \<and> x + dx < int n \<and> 0 \<le> y + dy \<and> y + dy < int n
        \<and> \<not> (dx = dy \<and> dy = 0))"
proof -
  have "set (neighbors (x, y) n) = {(x + dx, y + dy) | dx dy. dx \<in> set [-1, 0, 1] \<and> dy \<in> set [-1, 0, 1] \<and>
     (0 \<le> x + dx \<and> x + dx < int n \<and> 0 \<le> y + dy \<and> y + dy < int n \<and> \<not> (dx = dy \<and> dy = 0))}"
    unfolding neighbors.simps by (rule set_comprehension)
  then show ?thesis by auto
qed

lemma neighbors_adjacent:
  "s' \<in> set (neighbors s n) \<longleftrightarrow>
     in_grid n s' \<and> s \<noteq> s' \<and> max \<bar>fst s - fst s'\<bar> \<bar>snd s - snd s'\<bar> = 1"
proof (cases s; cases s')
  fix x y x' y' assume s: "s = (x, y)" and s': "s' = (x', y')"
  have "(x', y') \<in> set (neighbors (x, y) n) \<longleftrightarrow>
     (0 \<le> x' \<and> x' < int n \<and> 0 \<le> y' \<and> y' < int n) \<and> (x, y) \<noteq> (x', y') \<and> max \<bar>x - x'\<bar> \<bar>y - y'\<bar> = 1"
    (is "?L \<longleftrightarrow> ?R")
  proof
    assume ?L
    then obtain dx dy where d: "dx \<in> {-1, 0, 1}" "dy \<in> {-1, 0, 1}"
      "x' = x + dx" "y' = y + dy" "0 \<le> x + dx" "x + dx < int n" "0 \<le> y + dy" "y + dy < int n"
      "\<not> (dx = dy \<and> dy = 0)"
      unfolding neighbors_iff by blast
    have "\<bar>x - x'\<bar> = \<bar>dx\<bar>" "\<bar>y - y'\<bar> = \<bar>dy\<bar>" using d(3,4) by auto
    moreover have "max \<bar>dx\<bar> \<bar>dy\<bar> = 1" using d(1,2,9) by (auto simp: max_def)
    moreover have "(x, y) \<noteq> (x', y')" using d(3,4,9) by auto
    ultimately show ?R using d(3-8) by simp
  next
    assume r: ?R
    define dx dy where "dx = x' - x" and "dy = y' - y"
    from r have m: "max \<bar>dx\<bar> \<bar>dy\<bar> = 1" unfolding dx_def dy_def by (simp add: abs_minus_commute)
    then have "\<bar>dx\<bar> \<le> 1" "\<bar>dy\<bar> \<le> 1" by (simp_all add: max_def split: if_splits)
    then have a: "dx \<in> {-1, 0, 1}" and b: "dy \<in> {-1, 0, 1}" by auto
    have c: "\<not> (dx = dy \<and> dy = 0)" using m by auto
    have "x' = x + dx" "y' = y + dy" by (simp_all add: dx_def dy_def)
    with a b c r show ?L unfolding neighbors_iff by blast
  qed
  then show ?thesis by (simp add: s s' in_grid_def del: neighbors.simps)
qed

subsection \<open>The scorer\<close>

lemma length_scores: "length scores = 107"
  by (simp add: scores_def)

lemma scores_payout: "n \<le> 106 \<Longrightarrow> scores ! n = payout n"
  by (simp add: scores_def payout_def nth_append nth_Cons' )

lemma total_score_returns:
  assumes "\<forall>w \<in> WORDS. length w \<le> 106"
  shows "\<exists>v. total_score found WORDS = Inr v"
proof -
  have eq: "(length scores \<le> length w) = (\<not> length w \<le> 106)" for w :: string
    unfolding length_scores by arith
  have "\<not> (\<exists>w \<in> found \<inter> WORDS. length scores \<le> length w)"
    unfolding eq using assms by simp
  then show ?thesis by (simp add: total_score_def)
qed

text \<open>
  Claim C10. The table \<open>scores\<close> has exactly 107 entries, for the lengths 0 to 106.
  \<open>total_score\<close> returns a number exactly when every word common to \<open>found\<close> and
  \<open>WORDS\<close> has at most 106 letters, and it raises IndexError exactly when some common word
  has 107 letters or more; a common word of 107 letters is such a case.
\<close>

theorem total_score_table_bound:
  "length scores = 107
   \<and> ((\<exists>v. total_score found WORDS = Inr v) = (\<forall>w \<in> found \<inter> WORDS. length w \<le> 106))
   \<and> ((total_score found WORDS = Inl IndexError) = (\<exists>w \<in> found \<inter> WORDS. 107 \<le> length w))
   \<and> total_score {replicate 107 (CHR ''A'')} {replicate 107 (CHR ''A'')} = Inl IndexError"
proof -
  have len: "length scores = 107" by (rule length_scores)
  have eq: "(107 \<le> length w) = (\<not> length w \<le> 106)" for w :: string by arith
  have r: "(\<exists>v. total_score found WORDS = Inr v) = (\<forall>w \<in> found \<inter> WORDS. length w \<le> 106)"
    unfolding total_score_def len eq by simp
  have l: "(total_score found WORDS = Inl IndexError) = (\<exists>w \<in> found \<inter> WORDS. 107 \<le> length w)"
    unfolding total_score_def len by simp
  have c: "total_score {replicate 107 (CHR ''A'')} {replicate 107 (CHR ''A'')} = Inl IndexError"
    unfolding total_score_def len by simp
  from len r l c show ?thesis by blast
qed

theorem total_score_table_bound_witness:
  "\<exists>v. total_score {''CAT'', ''ZZ''} {''CAT'', ''DOGS''} = Inr v"
  using total_score_table_bound [of "{''CAT'', ''ZZ''}" "{''CAT'', ''DOGS''}"] by simp

text \<open>
  Claim C3, as stated, asks 11 points for every word of 8 letters or more. On a common
  word of 107 letters \<open>total_score\<close> is not the sum of the payouts: it raises IndexError.
\<close>

theorem total_score_long_word_counterexample:
  "total_score {replicate 107 (CHR ''A'')} {replicate 107 (CHR ''A'')}
     \<noteq> Inr (\<Sum>w \<in> {replicate 107 (CHR ''A'')} \<inter> {replicate 107 (CHR ''A'')}. payout (length w))"
  by (simp add: total_score_def length_scores)

text \<open>
  Claim C3, amended. When every word common to \<open>found\<close> and \<open>WORDS\<close> has at most 106
  letters, \<open>total_score\<close> is the sum, over the words common to both, of the payout of the
  word's length; a string of \<open>found\<close> outside \<open>WORDS\<close> is not in the sum and adds nothing.
\<close>

theorem total_score_payout:
  assumes "\<forall>w \<in> found \<inter> WORDS. length w \<le> 106"
  shows "total_score found WORDS = Inr (\<Sum>w \<in> found \<inter> WORDS. payout (length w))"
proof -
  have eq: "(length scores \<le> length w) = (\<not> length w \<le> 106)" for w :: string
    unfolding length_scores by arith
  have "\<not> (\<exists>w \<in> found \<inter> WORDS. length scores \<le> length w)"
    unfolding eq using assms by simp
  moreover have "(\<Sum>w \<in> found \<inter> WORDS. scores ! length w) = (\<Sum>w \<in> found \<inter> WORDS. payout (length w))"
    by (rule sum.cong) (use assms in \<open>auto simp: scores_payout\<close>)
  ultimately show ?thesis by (simp add: total_score_def)
qed

theorem total_score_payout_witness:
  "total_score {''CAT'', ''PUZZLED'', ''ZZ''} {''CAT'', ''PUZZLED'', ''DOGS''} = Inr 6"
  using total_score_payout [of "{''CAT'', ''PUZZLED'', ''ZZ''}" "{''CAT'', ''PUZZLED'', ''DOGS''}"]
  by (simp add: payout_def)

subsection \<open>The word list\<close>

text \<open>
  Claim C8, as stated, asks for an error on an empty word list. The code builds the empty
  index from it: no word and no prefix.
\<close>

theorem empty_word_list_counterexample:
  "WORDS_of [] = {} \<and> word_prefixes (WORDS_of []) = {}"
  by (simp add: WORDS_of_def word_prefixes_def)

text \<open>
  Claim C8, amended. From a token list without a word of three letters or more (the empty
  list among them) the construction returns the empty index: \<open>WORDS\<close> is empty and so is
  the prefix set. No check rejects it.
\<close>

theorem no_qualifying_words_empty_index:
  assumes "\<forall>w \<in> set tokens. length w < 3"
  shows "WORDS_of tokens = {} \<and> word_prefixes (WORDS_of tokens) = {}"
proof -
  have "WORDS_of tokens = {}" using assms by (auto simp: WORDS_of_def)
  then show ?thesis by (simp add: word_prefixes_def)
qed

theorem no_qualifying_words_empty_index_witness:
  "WORDS_of [''GO'', ''AT''] = {} \<and> word_prefixes (WORDS_of [''GO'', ''AT'']) = {}"
proof -
  have h: "\<forall>w \<in> set [''GO'', ''AT'']. length w < 3" by simp
  from no_qualifying_words_empty_index [OF h] show ?thesis .
qed

subsection \<open>Board construction\<close>

text \<open>
  Claim C6, as stated, asks for a size error when the number of valid letters is zero or
  not a perfect square. From two letters the constructor returns the board of the single
  square \<open>(0, 0)\<close>, and from no letter the board without squares.
\<close>

theorem Board_init_size_counterexample:
  "Board_init (Some [''A'', ''B'']) =
     Inr \<lparr>squares = [(0, 0)], board_neighbors = [((0, 0), [])], tiles = [(0, 0) \<mapsto> ''A'']\<rparr>
   \<and> Board_init (Some []) = Inr \<lparr>squares = [], board_neighbors = [], tiles = Map.empty\<rparr>"
  by (simp add: keep_letters_def row_major_def neighbors.simps)

text \<open>
  Claim C6, amended. Board construction has no size error. It fails exactly when no
  letter sequence is passed at all, with a TypeError; from every letter sequence, whatever
  the number \<open>M\<close> of its valid letters, it returns a board, of \<open>isqrt M * isqrt M\<close> squares.
\<close>

theorem Board_init_fails_only_on_None:
  "((Board_init letters = Inl e) = (letters = None \<and> e = TypeError))
   \<and> (\<exists>b. Board_init (Some ls) = Inr b
          \<and> length (squares b) = isqrt (length (keep_letters ls)) * isqrt (length (keep_letters ls)))"
  by (cases letters) (auto simp: Let_def length_row_major)

theorem Board_init_fails_only_on_None_witness:
  "(\<exists>b. Board_init (Some [''A'', ''B'', ''C'']) = Inr b \<and> length (squares b) = 1)
   \<and> Board_init (Some [''A'', ''B'', ''C'']) \<noteq> Inl TypeError"
  using Board_init_fails_only_on_None [of "Some [''A'', ''B'', ''C'']" TypeError "[''A'', ''B'', ''C'']"]
  by (simp add: keep_letters_def)

text \<open>
  Claim C9. For every letter sequence, with \<open>M\<close> valid letters after filtering and the
  replacement of Q by QU, and \<open>n\<close> the integer square root of \<open>M\<close> (so
  \<open>n\<^sup>2 \<le> M < (n + 1)\<^sup>2\<close>), construction raises nothing and returns the board of the
  \<open>n\<close> by \<open>n\<close> squares in row-major order whose tiles are the first \<open>n * n\<close> valid
  letters in input order; the other \<open>M - n * n\<close> letters are on no square. For
  \<open>M = 0\<close> the board has no square. In particular this holds when \<open>M\<close> is not a perfect
  square.
\<close>

theorem Board_init_floor_sqrt:
  "(let letters = keep_letters ls; n = isqrt (length letters) in
     n * n \<le> length letters \<and> length letters < (n + 1) * (n + 1)
     \<and> (\<exists>b. Board_init (Some ls) = Inr b
            \<and> squares b = row_major n
            \<and> length (squares b) = n * n
            \<and> distinct (squares b)
            \<and> set (squares b) = {(x, y). 0 \<le> x \<and> x < int n \<and> 0 \<le> y \<and> y < int n}
            \<and> dom (tiles b) = set (squares b)
            \<and> map (tiles b) (squares b) = map Some (take (n * n) letters)))"
proof -
  define letters where "letters = keep_letters ls"
  define n where "n = isqrt (length letters)"
  define b where "b = \<lparr>squares = row_major n,
      board_neighbors = map (\<lambda>s. (s, neighbors s n)) (row_major n),
      tiles = Map.empty(row_major n [\<mapsto>] letters)\<rparr>"
  have lo: "n * n \<le> length letters" and hi: "length letters < (n + 1) * (n + 1)"
    using isqrt_bounds [of "length letters"] by (auto simp: n_def)
  have init: "Board_init (Some ls) = Inr b"
    by (simp add: b_def n_def letters_def Let_def)
  have d: "dom (tiles b) = set (squares b)"
    using lo by (simp add: b_def length_row_major)
  have m: "map (tiles b) (squares b) = map Some (take (n * n) letters)"
  proof (rule nth_equalityI)
    show "length (map (tiles b) (squares b)) = length (map Some (take (n * n) letters))"
      using lo by (simp add: b_def length_row_major)
  next
    fix i assume "i < length (map (tiles b) (squares b))"
    then have i: "i < n * n" by (simp add: b_def length_row_major)
    with lo have "(Map.empty(row_major n [\<mapsto>] letters)) (row_major n ! i) = Some (letters ! i)"
      by (intro upds_nth) (auto simp: distinct_row_major length_row_major)
    with i lo show "map (tiles b) (squares b) ! i = map Some (take (n * n) letters) ! i"
      by (simp add: b_def length_row_major)
  qed
  have "squares b = row_major n" by (simp add: b_def)
  with lo hi init d m show ?thesis
    unfolding Let_def letters_def [symmetric] n_def [symmetric]
    by (auto simp: length_row_major distinct_row_major set_row_major)
qed

theorem Board_init_floor_sqrt_witness:
  "\<exists>b. Board_init (Some [''A'', ''Q'', ''C'', ''D'', ''E'', '' '', ''f'']) = Inr b
     \<and> squares b = [(0, 0), (1, 0), (0, 1), (1, 1)]
     \<and> map (tiles b) (squares b) = [Some ''A'', Some ''QU'', Some ''C'', Some ''D'']"
  using Board_init_floor_sqrt [of "[''A'', ''Q'', ''C'', ''D'', ''E'', '' '', ''f'']"]
  by (simp add: keep_letters_def row_major_def)

subsection \<open>Boards of size \<open>n\<close>\<close>

lemma Board_init_board_of_size:
  assumes "Board_init (Some ls) = Inr b"
  shows "board_of_size (isqrt (length (keep_letters ls))) b"
proof -
  let ?n = "isqrt (length (keep_letters ls))"
  have "?n * ?n \<le> length (keep_letters ls)" using isqrt_bounds by blast
  then have "dom (Map.empty(row_major ?n [\<mapsto>] keep_letters ls)) = set (row_major ?n)"
    by (simp add: length_row_major)
  moreover from assms have "b = \<lparr>squares = row_major ?n,
      board_neighbors = map (\<lambda>s. (s, neighbors s ?n)) (row_major ?n),
      tiles = Map.empty(row_major ?n [\<mapsto>] keep_letters ls)\<rparr>"
    by (simp add: Let_def)
  ultimately show ?thesis by (simp add: board_of_size_def)
qed

lemma mutate_boggle_board_of_size:
  assumes "mutate_boggle b r = Inr (b', s, old)" and "board_of_size n b"
  shows "board_of_size n b'" and "in_grid n s" and "tiles b s = Some old"
proof -
  from assms(1) obtain c where s: "choice (squares b) (fst r) = Inr s"
    and old: "tiles b s = Some old" and b': "b' = b\<lparr>tiles := (tiles b)(s \<mapsto> [c])\<rparr>"
    by (auto simp: mutate_boggle_def split: sum.splits option.splits)
  from s have "s \<in> set (squares b)" by (auto simp: choice_def split: if_splits)
  with assms(2) show g: "in_grid n s" by (simp add: board_of_size_def in_grid_row_major)
  from old show "tiles b s = Some old" .
  from old have "insert s (dom (tiles b)) = dom (tiles b)" by auto
  with assms(2) b' show "board_of_size n b'" by (simp add: board_of_size_def)
qed

lemma board_of_size_neighbors:
  assumes "board_of_size n b" and "in_grid n s"
  shows "map_of (board_neighbors b) s = Some (neighbors s n)"
  using assms by (simp add: board_of_size_def map_of_tabulate in_grid_row_major)

lemma board_of_size_neighbors_Some:
  assumes "board_of_size n b" and "map_of (board_neighbors b) s = Some ns"
  shows "ns = neighbors s n"
  using assms by (simp add: board_of_size_def map_of_tabulate split: if_splits)

lemma board_of_size_tile:
  assumes "board_of_size n b" and "in_grid n s"
  shows "\<exists>t. tiles b s = Some t"
proof -
  from assms have "s \<in> dom (tiles b)" by (simp add: board_of_size_def in_grid_row_major)
  then show ?thesis by blast
qed

lemma qat_board_of_size: "board_of_size 2 qat_board"
  by (auto simp: board_of_size_def qat_board_def row_major_2)

subsection \<open>The word finder returns dictionary words only\<close>

lemma continue_path_sound:
  "continue_path b ws ps path prefix found = Inr F \<Longrightarrow> found \<subseteq> ws \<Longrightarrow> F \<subseteq> ws"
  "for_neighbors b ws ps ns path prefix found = Inr F \<Longrightarrow> found \<subseteq> ws \<Longrightarrow> F \<subseteq> ws"
proof (induction b ws ps path prefix found and b ws ps ns path prefix found arbitrary: F and F
    rule: continue_path_for_neighbors.induct)
  case (1 b ws ps path prefix found)
  let ?found1 = "if prefix \<in> ws then insert prefix found else found"
  have f1: "?found1 \<subseteq> ws" using "1.prems"(2) by auto
  show ?case
  proof (cases "prefix \<in> ps")
    case False
    with "1.prems"(1) have "F = ?found1" by (simp add: continue_path.simps Let_def)
    with f1 show ?thesis by simp
  next
    case True
    with "1.prems"(1) obtain ns where ne: "path \<noteq> []"
      and ns: "map_of (board_neighbors b) (last path) = Some ns"
      and run: "for_neighbors b ws ps ns path prefix ?found1 = Inr F"
      by (auto simp: continue_path.simps Let_def split: if_splits option.splits)
    from "1.IH" [OF refl True ne ns run f1] show ?thesis .
  qed
next
  case (2 b ws ps path prefix found)
  then show ?case by simp
next
  case (3 b ws ps s ss path prefix found)
  show ?case
  proof (cases "s \<in> set path")
    case True
    with "3.prems"(1) have "for_neighbors b ws ps ss path prefix found = Inr F" by simp
    from "3.IH"(3) [OF _ this "3.prems"(2)] True show ?thesis by simp
  next
    case False
    with "3.prems"(1) obtain t found' where t: "tiles b s = Some t"
      and c: "continue_path b ws ps (path @ [s]) (prefix @ t) found = Inr found'"
      and r: "for_neighbors b ws ps ss path prefix found' = Inr F"
      by (auto split: option.splits sum.splits)
    from "3.IH"(1) [OF False t c "3.prems"(2)] have "found' \<subseteq> ws" .
    from "3.IH"(2) [OF False t c r this] show ?thesis .
  qed
qed

lemma for_squares_sound:
  "for_squares b ws ps ss found = Inr F \<Longrightarrow> found \<subseteq> ws \<Longrightarrow> F \<subseteq> ws"
proof (induction ss arbitrary: found)
  case Nil
  then show ?case by simp
next
  case (Cons s ss)
  from Cons.prems(1) obtain t found' where "tiles b s = Some t"
    and c: "continue_path b ws ps [s] t found = Inr found'"
    and r: "for_squares b ws ps ss found' = Inr F"
    by (auto split: option.splits sum.splits)
  from continue_path_sound(1) [OF c Cons.prems(2)] have "found' \<subseteq> ws" .
  from Cons.IH [OF r this] show ?case .
qed

text \<open>On a board of size \<open>n\<close> no lookup fails, so the search returns a set.\<close>

lemma continue_path_total:
  "board_of_size n b \<Longrightarrow> path \<noteq> [] \<Longrightarrow> in_grid n (last path)
     \<Longrightarrow> \<exists>F. continue_path b ws ps path prefix found = Inr F"
  "board_of_size n b \<Longrightarrow> list_all (in_grid n) ns \<Longrightarrow> path \<noteq> [] \<Longrightarrow> in_grid n (last path)
     \<Longrightarrow> \<exists>F. for_neighbors b ws ps ns path prefix found = Inr F"
proof (induction b ws ps path prefix found and b ws ps ns path prefix found
    rule: continue_path_for_neighbors.induct)
  case (1 b ws ps path prefix found)
  let ?found1 = "if prefix \<in> ws then insert prefix found else found"
  show ?case
  proof (cases "prefix \<in> ps")
    case False
    then show ?thesis by (simp add: continue_path.simps Let_def)
  next
    case True
    have ns: "map_of (board_neighbors b) (last path) = Some (neighbors (last path) n)"
      using "1.prems" by (simp add: board_of_size_neighbors)
    have "list_all (in_grid n) (neighbors (last path) n)"
      by (simp add: list_all_iff neighbors_adjacent)
    from "1.IH" [OF refl True "1.prems"(2) ns "1.prems"(1) this "1.prems"(2,3)]
    obtain F where "for_neighbors b ws ps (neighbors (last path) n) path prefix ?found1 = Inr F" ..
    with True ns "1.prems"(2) show ?thesis by (simp add: continue_path.simps Let_def)
  qed
next
  case (2 b ws ps path prefix found)
  then show ?case by simp
next
  case (3 b ws ps s ss path prefix found)
  from "3.prems"(2) have s: "in_grid n s" and ss: "list_all (in_grid n) ss" by simp_all
  show ?case
  proof (cases "s \<in> set path")
    case True
    from "3.IH"(3) [OF _ "3.prems"(1) ss "3.prems"(3,4)] True show ?thesis by simp
  next
    case False
    from board_of_size_tile [OF "3.prems"(1) s] obtain t where t: "tiles b s = Some t" ..
    from "3.IH"(1) [OF False t "3.prems"(1)]
    obtain found' where c: "continue_path b ws ps (path @ [s]) (prefix @ t) found = Inr found'"
      using s by auto
    from "3.IH"(2) [OF False t c "3.prems"(1) ss "3.prems"(3,4)]
    obtain F where "for_neighbors b ws ps ss path prefix found' = Inr F" ..
    with False t c show ?thesis by simp
  qed
qed

lemma for_squares_total:
  "board_of_size n b \<Longrightarrow> list_all (in_grid n) ss \<Longrightarrow> \<exists>F. for_squares b ws ps ss found = Inr F"
proof (induction ss arbitrary: found)
  case Nil
  then show ?case by simp
next
  case (Cons s ss)
  from Cons.prems have s: "in_grid n s" and ss: "list_all (in_grid n) ss" by simp_all
  from board_of_size_tile [OF Cons.prems(1) s] obtain t where t: "tiles b s = Some t" ..
  from continue_path_total(1) [OF Cons.prems(1), of "[s]" ws ps t found] s
  obtain found' where c: "continue_path b ws ps [s] t found = Inr found'" by auto
  from Cons.IH [OF Cons.prems(1) ss, of found'] obtain F where "for_squares b ws ps ss found' = Inr F" ..
  with t c show ?case by simp
qed

lemma find_words_total:
  assumes "board_of_size n b"
  shows "\<exists>F. find_words b ws ps = Inr F"
proof -
  from assms have "squares b = row_major n" by (simp add: board_of_size_def)
  then have "list_all (in_grid n) (squares b)" by (simp add: list_all_iff in_grid_row_major)
  from for_squares_total [OF assms this] show ?thesis by (simp add: find_words_def)
qed

lemma qat_find_words:
  "find_words qat_board {''QAT'', ''SAT'', ''DOG''} {''Q'', ''QA'', ''S'', ''SA'', ''D'', ''DO''}
     = Inr {''QAT'', ''SAT''}"
  by code_simp

text \<open>
  Claim C1. Every string in the set that \<open>find_words\<close> returns is in the word set
  \<open>words\<close>: this holds on every board, whenever a set is returned. And on every board of
  size \<open>n\<close> a set is returned, all of whose strings are in \<open>words\<close>.
\<close>

theorem find_words_only_words:
  "(find_words b words prefixes = Inr found \<longrightarrow> found \<subseteq> words)
   \<and> (board_of_size n b \<longrightarrow> (\<exists>F. find_words b words prefixes = Inr F \<and> F \<subseteq> words))"
proof -
  have sound: "F \<subseteq> words" if "find_words b words prefixes = Inr F" for F
    using that for_squares_sound [of b words prefixes "squares b" "{}" F] by (simp add: find_words_def)
  then show ?thesis using find_words_total [of n b words prefixes] by blast
qed

theorem find_words_only_words_witness:
  "\<exists>F. find_words qat_board {''QAT'', ''SAT'', ''DOG''} {''Q'', ''QA'', ''S'', ''SA'', ''D'', ''DO''} = Inr F
     \<and> F \<subseteq> {''QAT'', ''SAT'', ''DOG''} \<and> F = {''QAT'', ''SAT''}"
  using find_words_only_words [of qat_board "{''QAT'', ''SAT'', ''DOG''}"
      "{''Q'', ''QA'', ''S'', ''SA'', ''D'', ''DO''}" "{''QAT'', ''SAT''}" 2]
    qat_board_of_size qat_find_words
  by simp

subsection \<open>Every word found has a path\<close>

lemma is_path_single: "in_grid n s \<Longrightarrow> is_path n [s]"
  by (simp add: is_path_def)

lemma is_path_snoc:
  assumes p: "is_path n path" and new: "s \<notin> set path" and nb: "s \<in> set (neighbors (last path) n)"
  shows "is_path n (path @ [s])"
proof -
  from p have ne: "path \<noteq> []" and l: "in_grid n (last path)"
    by (auto simp: is_path_def list_all_iff)
  from nb l have "adjacent n (last path) s" and "in_grid n s"
    by (auto simp: neighbors_adjacent adjacent_def)
  with p new ne show ?thesis
    by (simp add: is_path_def successively_append_iff)
qed

lemma spells_single: "tiles b s = Some t \<Longrightarrow> spells b [s] t"
  unfolding spells_def by (rule exI [of _ "[t]"]) simp

lemma spells_snoc:
  assumes "spells b path prefix" and "tiles b s = Some t"
  shows "spells b (path @ [s]) (prefix @ t)"
proof -
  from assms(1) obtain ts where "map (tiles b) path = map Some ts" and "prefix = concat ts"
    unfolding spells_def by blast
  with assms(2) have "map (tiles b) (path @ [s]) = map Some (ts @ [t]) \<and> prefix @ t = concat (ts @ [t])"
    by simp
  then show ?thesis unfolding spells_def by blast
qed

lemma continue_path_paths:
  "continue_path b ws ps path prefix found = Inr F \<Longrightarrow> board_of_size n b
     \<Longrightarrow> is_path n path \<Longrightarrow> spells b path prefix
     \<Longrightarrow> (\<And>w. w \<in> found \<Longrightarrow> spelled n b w) \<Longrightarrow> w \<in> F \<Longrightarrow> spelled n b w"
  "for_neighbors b ws ps ns path prefix found = Inr F \<Longrightarrow> board_of_size n b
     \<Longrightarrow> is_path n path \<Longrightarrow> spells b path prefix
     \<Longrightarrow> set ns \<subseteq> set (neighbors (last path) n)
     \<Longrightarrow> (\<And>w. w \<in> found \<Longrightarrow> spelled n b w) \<Longrightarrow> w \<in> F \<Longrightarrow> spelled n b w"
proof (induction b ws ps path prefix found and b ws ps ns path prefix found arbitrary: F w and F w
    rule: continue_path_for_neighbors.induct)
  case (1 b ws ps path prefix found)
  let ?found1 = "if prefix \<in> ws then insert prefix found else found"
  have "spelled n b prefix" using "1.prems"(3,4) unfolding spelled_def by blast
  then have f1: "spelled n b v" if "v \<in> ?found1" for v
    using that "1.prems"(5) by (auto split: if_splits)
  show ?case
  proof (cases "prefix \<in> ps")
    case False
    with "1.prems"(1) have "F = ?found1" by (simp add: continue_path.simps Let_def)
    with f1 "1.prems"(6) show ?thesis by blast
  next
    case True
    with "1.prems"(1) obtain ns where ne: "path \<noteq> []"
      and ns: "map_of (board_neighbors b) (last path) = Some ns"
      and run: "for_neighbors b ws ps ns path prefix ?found1 = Inr F"
      by (auto simp: continue_path.simps Let_def split: if_splits option.splits)
    from board_of_size_neighbors_Some [OF "1.prems"(2) ns] have "set ns \<subseteq> set (neighbors (last path) n)"
      by simp
    from "1.IH" [OF refl True ne ns run "1.prems"(2,3,4) this f1 "1.prems"(6)] show ?thesis .
  qed
next
  case (2 b ws ps path prefix found)
  then show ?case by simp
next
  case (3 b ws ps s ss path prefix found)
  from "3.prems"(5) have s: "s \<in> set (neighbors (last path) n)"
    and ss: "set ss \<subseteq> set (neighbors (last path) n)" by simp_all
  show ?case
  proof (cases "s \<in> set path")
    case True
    with "3.prems"(1) have r: "for_neighbors b ws ps ss path prefix found = Inr F" by simp
    from "3.IH"(3) [OF _ r "3.prems"(2,3,4) ss "3.prems"(6,7)] True show ?thesis by simp
  next
    case False
    with "3.prems"(1) obtain t found' where t: "tiles b s = Some t"
      and c: "continue_path b ws ps (path @ [s]) (prefix @ t) found = Inr found'"
      and r: "for_neighbors b ws ps ss path prefix found' = Inr F"
      by (auto split: option.splits sum.splits)
    have p: "is_path n (path @ [s])" using "3.prems"(3) False s by (rule is_path_snoc)
    have sp: "spells b (path @ [s]) (prefix @ t)" using "3.prems"(4) t by (rule spells_snoc)
    have f': "spelled n b v" if "v \<in> found'" for v
      using "3.IH"(1) [OF False t c "3.prems"(2) p sp "3.prems"(6) that] .
    from "3.IH"(2) [OF False t c r "3.prems"(2,3,4) ss f' "3.prems"(7)] show ?thesis .
  qed
qed

lemma for_squares_paths:
  "for_squares b ws ps ss found = Inr F \<Longrightarrow> board_of_size n b \<Longrightarrow> list_all (in_grid n) ss
     \<Longrightarrow> (\<And>w. w \<in> found \<Longrightarrow> spelled n b w) \<Longrightarrow> w \<in> F \<Longrightarrow> spelled n b w"
proof (induction ss arbitrary: found)
  case Nil
  then show ?case by simp
next
  case (Cons s ss)
  from Cons.prems(1) obtain t found' where t: "tiles b s = Some t"
    and c: "continue_path b ws ps [s] t found = Inr found'"
    and r: "for_squares b ws ps ss found' = Inr F"
    by (auto split: option.splits sum.splits)
  from Cons.prems(3) have s: "in_grid n s" and ss: "list_all (in_grid n) ss" by simp_all
  have f': "spelled n b v" if "v \<in> found'" for v
    using continue_path_paths(1) [OF c Cons.prems(2) is_path_single [OF s] spells_single [OF t] Cons.prems(4) that] .
  from Cons.IH [OF r Cons.prems(2) ss f' Cons.prems(5)] show ?case .
qed

text \<open>
  Claim C2. On a board of size \<open>n\<close>, every word in the set that \<open>find_words\<close> returns is
  spelled by a path: a non-empty sequence of squares of the grid, no square repeated, each
  square adjacent to the next (both in bounds, different, at Chebyshev distance 1), whose
  tiles concatenated give the word.
\<close>

theorem find_words_paths:
  assumes "board_of_size n b" and "find_words b words prefixes = Inr found" and "w \<in> found"
  shows "\<exists>path ts. path \<noteq> [] \<and> distinct path \<and> list_all (in_grid n) path
           \<and> successively (adjacent n) path
           \<and> map (tiles b) path = map Some ts \<and> w = concat ts"
proof -
  from assms(1) have "squares b = row_major n" by (simp add: board_of_size_def)
  then have g: "list_all (in_grid n) (squares b)" by (simp add: list_all_iff in_grid_row_major)
  from assms(2) have "for_squares b words prefixes (squares b) {} = Inr found"
    by (simp add: find_words_def)
  from for_squares_paths [OF this assms(1) g _ assms(3)] have "spelled n b w" by simp
  then show ?thesis unfolding spelled_def is_path_def spells_def by blast
qed

theorem find_words_paths_witness:
  "\<exists>path ts. path \<noteq> [] \<and> distinct path \<and> list_all (in_grid 2) path
     \<and> successively (adjacent 2) path
     \<and> map (tiles qat_board) path = map Some ts \<and> ''QAT'' = concat ts"
proof -
  have "''QAT'' \<in> {''QAT'', ''SAT''}" by simp
  from find_words_paths [OF qat_board_of_size qat_find_words this] show ?thesis .
qed

subsection \<open>Tiles stay letters\<close>

lemma upper_char:
  assumes "(65::nat) \<le> of_char c" and "of_char c \<le> (90::nat)"
  shows "c \<in> set ''ABCDEFGHIJKLMNOPQRSTUVWXYZ''"
proof -
  have every: "\<forall>k \<in> set [65..<91]. char_of (k::nat) \<in> set ''ABCDEFGHIJKLMNOPQRSTUVWXYZ''"
    by code_simp
  from assms have "(of_char c :: nat) < 91" by arith
  with assms(1) have "(of_char c :: nat) \<in> set [65..<91]"
    unfolding set_upt atLeastLessThan_iff by (rule conjI)
  with every have "char_of (of_char c :: nat) \<in> set ''ABCDEFGHIJKLMNOPQRSTUVWXYZ''" by blast
  then show ?thesis by simp
qed

lemma keep_letter_ok:
  assumes "length L = 1 \<or> L = ''QU''" and "str_le ''A'' L" and "str_le L ''Z''"
  shows "tile_ok (if L = ''Q'' then ''QU'' else L)"
proof (cases "L = ''QU''")
  case True
  then show ?thesis by (simp add: tile_ok_def)
next
  case False
  with assms(1) obtain c where L: "L = [c]" by (cases L) auto
  from assms(2,3) have "(65::nat) \<le> of_char c" and "of_char c \<le> (90::nat)"
    unfolding L by (auto simp: less_Suc_eq_le le_less)
  then have "c \<in> set ''ABCDEFGHIJKLMNOPQRSTUVWXYZ''" by (rule upper_char)
  then show ?thesis unfolding L tile_ok_def by auto
qed

lemma keep_letters_ok:
  assumes "\<forall>L \<in> set ls. length L = 1 \<or> L = ''QU''" and "t \<in> set (keep_letters ls)"
  shows "tile_ok t"
proof -
  from assms(2) obtain L where "L \<in> set ls" "str_le ''A'' L" "str_le L ''Z''"
    and t: "t = (if L = ''Q'' then ''QU'' else L)"
    by (auto simp: keep_letters_def)
  with assms(1) show ?thesis unfolding t by (intro keep_letter_ok) auto
qed

lemma keep_letters_no_Q: "''Q'' \<notin> set (keep_letters ls)"
  by (auto simp: keep_letters_def)

lemma Board_init_ran:
  assumes "Board_init (Some ls) = Inr b"
  shows "ran (tiles b) \<subseteq> set (keep_letters ls)"
proof
  fix t assume "t \<in> ran (tiles b)"
  then obtain k where "tiles b k = Some t" by (auto simp: ran_def)
  with assms have "(Map.empty(row_major (isqrt (length (keep_letters ls))) [\<mapsto>] keep_letters ls)) k = Some t"
    by (auto simp: Let_def)
  from upds_Some [OF this] show "t \<in> set (keep_letters ls)" by simp
qed

lemma Board_init_tiles_ok:
  assumes "Board_init (Some ls) = Inr b" and "\<forall>L \<in> set ls. length L = 1 \<or> L = ''QU''"
  shows "tiles_ok b"
  using Board_init_ran [OF assms(1)] keep_letters_ok [OF assms(2)]
  by (auto simp: tiles_ok_def)

lemma LETTERS_ok: "c \<in> set LETTERS \<Longrightarrow> tile_ok [c]"
  by (auto simp: LETTERS_def tile_ok_def)

lemma tiles_ok_update:
  assumes "tiles_ok b" and "tile_ok t"
  shows "tiles_ok (b\<lparr>tiles := (tiles b)(s \<mapsto> t)\<rparr>)"
  unfolding tiles_ok_def
proof
  fix v assume "v \<in> ran (tiles (b\<lparr>tiles := (tiles b)(s \<mapsto> t)\<rparr>))"
  then obtain k where "((tiles b)(s \<mapsto> t)) k = Some v" by (auto simp: ran_def)
  then have "v = t \<or> v \<in> ran (tiles b)" by (cases "k = s") (auto intro: ranI)
  with assms show "tile_ok v" by (auto simp: tiles_ok_def)
qed

lemma mutate_boggle_tiles_ok:
  assumes "mutate_boggle b r = Inr (b', s, old)" and "tiles_ok b"
  shows "tiles_ok b'" and "tile_ok old" and "\<exists>c \<in> set LETTERS. tiles b' s = Some [c]"
proof -
  from assms(1) obtain c where s: "choice (squares b) (fst r) = Inr s"
    and old: "tiles b s = Some old" and c: "choice LETTERS (snd r) = Inr c"
    and b': "b' = b\<lparr>tiles := (tiles b)(s \<mapsto> [c])\<rparr>"
    by (auto simp: mutate_boggle_def split: sum.splits option.splits)
  from c have cl: "c \<in> set LETTERS" by (rule choice_mem)
  from old have "old \<in> ran (tiles b)" by (rule ranI)
  with assms(2) show "tile_ok old" by (simp add: tiles_ok_def)
  from tiles_ok_update [OF assms(2) LETTERS_ok [OF cl]] b' show "tiles_ok b'" by simp
  from cl b' show "\<exists>c \<in> set LETTERS. tiles b' s = Some [c]" by auto
qed

lemma hill_step_tiles_ok:
  assumes "hill_step ws ps W r (b, best) = Inr (b', best')" and "tiles_ok b"
  shows "tiles_ok b'"
proof -
  from assms(1) obtain b1 s old where m: "mutate_boggle b r = Inr (b1, s, old)"
    and b': "b' = b1 \<or> b' = b1\<lparr>tiles := (tiles b1)(s \<mapsto> old)\<rparr>"
    by (auto simp: hill_step_def split: sum.splits if_splits)
  from mutate_boggle_tiles_ok(1,2) [OF m assms(2)] have "tiles_ok b1" "tile_ok old" .
  with b' tiles_ok_update [of b1 old s] show ?thesis by auto
qed

lemma hill_loop_tiles_ok:
  "hill_loop k ws ps W rnd (b, best) = Inr (b', best') \<Longrightarrow> tiles_ok b \<Longrightarrow> tiles_ok b'"
proof (induction k arbitrary: rnd b best)
  case 0
  then show ?case by simp
next
  case (Suc k)
  from Suc.prems(1) obtain b1 best1 where st: "hill_step ws ps W (rnd 0) (b, best) = Inr (b1, best1)"
    and l: "hill_loop k ws ps W (\<lambda>i. rnd (Suc i)) (b1, best1) = Inr (b', best')"
    by (auto split: sum.splits)
  from hill_step_tiles_ok [OF st Suc.prems(2)] have "tiles_ok b1" .
  from Suc.IH [OF l this] show ?case .
qed

lemma tiles_in_order_ran:
  "tiles_in_order b ss = Inr ts \<Longrightarrow> set ts \<subseteq> ran (tiles b)"
proof (induction ss arbitrary: ts)
  case Nil
  then show ?case by simp
next
  case (Cons s ss)
  from Cons.prems obtain t ts' where "tiles b s = Some t" "tiles_in_order b ss = Inr ts'" "ts = t # ts'"
    by (auto split: option.splits sum.splits)
  with Cons.IH [of ts'] show ?case by (auto intro: ranI)
qed

lemma tile_ok_shape: "tile_ok t \<Longrightarrow> length t = 1 \<or> t = ''QU''"
  by (auto simp: tile_ok_def)

lemma boggle_hill_climbing_tiles_ok:
  assumes "boggle_hill_climbing b ws ps W k rnd = Inr b'" and "tiles_ok b"
  shows "tiles_ok b'"
proof -
  from assms(1) obtain ts c best best' where ts: "tiles_in_order b (squares b) = Inr ts"
    and c: "Board_init (Some ts) = Inr c"
    and l: "hill_loop k ws ps W rnd (c, best) = Inr (b', best')"
    by (auto simp: boggle_hill_climbing_def split: sum.splits)
  have "\<forall>L \<in> set ts. length L = 1 \<or> L = ''QU''"
  proof
    fix L assume "L \<in> set ts"
    with tiles_in_order_ran [OF ts] have "L \<in> ran (tiles b)" by blast
    with assms(2) have "tile_ok L" by (simp add: tiles_ok_def)
    then show "length L = 1 \<or> L = ''QU''" by (rule tile_ok_shape)
  qed
  from Board_init_tiles_ok [OF c this] have "tiles_ok c" .
  from hill_loop_tiles_ok [OF l this] show ?thesis .
qed

lemma qat_tiles_ok: "tiles_ok qat_board"
  by (auto simp: tiles_ok_def qat_board_def tile_ok_def ran_def split: if_splits)

text \<open>
  Claim C7. Every tile is one letter from A to Z or the string QU, and the operations keep
  it so. A board built from single characters (or from tiles) has well-formed tiles only,
  and none of them is a bare Q: the constructor writes QU for it. \<open>mutate_boggle\<close> on a
  board with well-formed tiles writes one letter of \<open>LETTERS\<close>, a letter from A to Z, and
  leaves a board with well-formed tiles; so do one pass of the hill climber, which may
  write the old tile back, and the whole of \<open>boggle_hill_climbing\<close>.
\<close>

theorem tiles_stay_letters:
  "(Board_init (Some ls) = Inr b \<and> (\<forall>L \<in> set ls. length L = 1 \<or> L = ''QU'')
      \<longrightarrow> tiles_ok b \<and> ''Q'' \<notin> ran (tiles b))
   \<and> (mutate_boggle b0 r = Inr (b1, s, old) \<and> tiles_ok b0
      \<longrightarrow> tiles_ok b1 \<and> (\<exists>c \<in> set LETTERS. tiles b1 s = Some [c] \<and> tile_ok [c]))
   \<and> (hill_step words prefixes WORDS r (b0, best) = Inr (b2, best') \<and> tiles_ok b0 \<longrightarrow> tiles_ok b2)
   \<and> (boggle_hill_climbing b0 words prefixes WORDS repeat rnd = Inr b3 \<and> tiles_ok b0 \<longrightarrow> tiles_ok b3)"
proof -
  have 1: "tiles_ok b \<and> ''Q'' \<notin> ran (tiles b)"
    if "Board_init (Some ls) = Inr b" "\<forall>L \<in> set ls. length L = 1 \<or> L = ''QU''"
    using Board_init_tiles_ok [OF that] Board_init_ran [OF that(1)] keep_letters_no_Q [of ls] by blast
  have 2: "tiles_ok b1 \<and> (\<exists>c \<in> set LETTERS. tiles b1 s = Some [c] \<and> tile_ok [c])"
    if "mutate_boggle b0 r = Inr (b1, s, old)" "tiles_ok b0"
    using mutate_boggle_tiles_ok(1,3) [OF that] LETTERS_ok by blast
  have 3: "tiles_ok b2" if "hill_step words prefixes WORDS r (b0, best) = Inr (b2, best')" "tiles_ok b0"
    using hill_step_tiles_ok [OF that] .
  have 4: "tiles_ok b3" if "boggle_hill_climbing b0 words prefixes WORDS repeat rnd = Inr b3" "tiles_ok b0"
    using boggle_hill_climbing_tiles_ok [OF that] .
  from 1 2 3 4 show ?thesis by blast
qed

theorem tiles_stay_letters_witness:
  "(\<exists>b. Board_init (Some [''Q'', ''A'', '' '', ''T'', ''S'']) = Inr b \<and> tiles_ok b \<and> ''Q'' \<notin> ran (tiles b)
        \<and> tiles b (0, 0) = Some ''QU'')
   \<and> (\<exists>b1. mutate_boggle qat_board (3, 83) = Inr (b1, (1, 1), ''S'') \<and> tiles_ok b1
        \<and> tiles b1 (1, 1) = Some ''Q'')
   \<and> (\<exists>b2. hill_step {''QAT'', ''SAT''} {''Q'', ''QA'', ''S'', ''SA''} {''QAT'', ''SAT''} (0, 83) (qat_board, 2)
        = Inr (b2, 2) \<and> tiles_ok b2)
   \<and> (\<exists>b3. boggle_hill_climbing qat_board {''QAT'', ''SAT''} {''Q'', ''QA'', ''S'', ''SA''} {''QAT'', ''SAT''}
        1 (\<lambda>i. (0, 83)) = Inr b3 \<and> tiles_ok b3)"
proof -
  let ?W = "{''QAT'', ''SAT''}" and ?P = "{''Q'', ''QA'', ''S'', ''SA''}"
  note t = tiles_stay_letters
  have "case Board_init (Some [''Q'', ''A'', '' '', ''T'', ''S'']) of Inl e \<Rightarrow> False
        | Inr b \<Rightarrow> tiles b (0, 0) = Some ''QU''"
    by code_simp
  then obtain b where b: "Board_init (Some [''Q'', ''A'', '' '', ''T'', ''S'']) = Inr b"
    and q: "tiles b (0, 0) = Some ''QU''"
    by (auto split: sum.splits)
  have "\<forall>L \<in> set [''Q'', ''A'', '' '', ''T'', ''S'']. length L = 1 \<or> L = ''QU''" by simp
  with b t [of "[''Q'', ''A'', '' '', ''T'', ''S'']" b] have "tiles_ok b \<and> ''Q'' \<notin> ran (tiles b)"
    by blast
  with b q have 1: "\<exists>b. Board_init (Some [''Q'', ''A'', '' '', ''T'', ''S'']) = Inr b \<and> tiles_ok b
      \<and> ''Q'' \<notin> ran (tiles b) \<and> tiles b (0, 0) = Some ''QU''" by blast
  have "case mutate_boggle qat_board (3, 83) of Inl e \<Rightarrow> False
        | Inr (b1, s, old) \<Rightarrow> s = (1, 1) \<and> old = ''S'' \<and> tiles b1 (1, 1) = Some ''Q''"
    by code_simp
  then obtain b1 where m: "mutate_boggle qat_board (3, 83) = Inr (b1, (1, 1), ''S'')"
    and q1: "tiles b1 (1, 1) = Some ''Q''"
    by (auto split: sum.splits)
  with qat_tiles_ok t [of _ _ qat_board "(3, 83)" b1 "(1, 1)" "''S''"] have "tiles_ok b1" by blast
  with m q1 have 2: "\<exists>b1. mutate_boggle qat_board (3, 83) = Inr (b1, (1, 1), ''S'') \<and> tiles_ok b1
      \<and> tiles b1 (1, 1) = Some ''Q''" by blast
  have "case hill_step ?W ?P ?W (0, 83) (qat_board, 2) of Inl e \<Rightarrow> False | Inr (b2, best) \<Rightarrow> best = 2"
    by code_simp
  then obtain b2 where h: "hill_step ?W ?P ?W (0, 83) (qat_board, 2) = Inr (b2, 2)"
    by (auto split: sum.splits)
  with qat_tiles_ok t [of _ _ qat_board "(0, 83)" _ _ _ ?W ?P ?W 2 b2 2] have "tiles_ok b2" by blast
  with h have 3: "\<exists>b2. hill_step ?W ?P ?W (0, 83) (qat_board, 2) = Inr (b2, 2) \<and> tiles_ok b2" by blast
  have "case boggle_hill_climbing qat_board ?W ?P ?W 1 (\<lambda>i. (0, 83)) of Inl e \<Rightarrow> False | Inr b3 \<Rightarrow> True"
    by code_simp
  then obtain b3 where c: "boggle_hill_climbing qat_board ?W ?P ?W 1 (\<lambda>i. (0, 83)) = Inr b3"
    by (auto split: sum.splits)
  with qat_tiles_ok t [of _ _ qat_board _ _ _ _ ?W ?P ?W _ _ _ 1 "\<lambda>i. (0, 83)" b3] have "tiles_ok b3" by blast
  with c have 4: "\<exists>b3. boggle_hill_climbing qat_board ?W ?P ?W 1 (\<lambda>i. (0, 83)) = Inr b3 \<and> tiles_ok b3" by blast
  from 1 2 3 4 show ?thesis by blast
qed

subsection \<open>One pass of the hill climber\<close>

lemma Board_tiles_revert:
  assumes "tiles b s = Some old"
  shows "b\<lparr>tiles := (tiles b)(s \<mapsto> t)\<rparr>\<lparr>tiles := (tiles (b\<lparr>tiles := (tiles b)(s \<mapsto> t)\<rparr>))(s \<mapsto> old)\<rparr> = b"
proof -
  from assms have "(tiles b)(s \<mapsto> old) = tiles b" by (rule map_upd_triv)
  then show ?thesis by simp
qed

lemma hill_step_cases:
  assumes "hill_step words prefixes WORDS r (b, best_score) = Inr (b', best')"
  shows "\<exists>s c old_letter new_score.
     choice (squares b) (fst r) = Inr s \<and> choice LETTERS (snd r) = Inr c
     \<and> tiles b s = Some old_letter
     \<and> board_score (b\<lparr>tiles := (tiles b)(s \<mapsto> [c])\<rparr>) words prefixes WORDS = Inr new_score
     \<and> (if new_score \<ge> best_score
          then b' = b\<lparr>tiles := (tiles b)(s \<mapsto> [c])\<rparr> \<and> best' = new_score
          else b' = b \<and> best' = best_score)"
proof (cases "mutate_boggle b r")
  case (Inl e)
  with assms show ?thesis by (simp add: hill_step_def)
next
  case (Inr m)
  obtain b1 s old where m: "m = (b1, s, old)" by (cases m)
  from Inr m obtain c where s: "choice (squares b) (fst r) = Inr s"
    and old: "tiles b s = Some old" and c: "choice LETTERS (snd r) = Inr c"
    and b1: "b1 = b\<lparr>tiles := (tiles b)(s \<mapsto> [c])\<rparr>"
    by (auto simp: mutate_boggle_def split: sum.splits option.splits)
  have undo: "b1\<lparr>tiles := (tiles b1)(s \<mapsto> old)\<rparr> = b"
    unfolding b1 using old by (rule Board_tiles_revert)
  show ?thesis
  proof (cases "board_score b1 words prefixes WORDS")
    case (Inl e)
    with assms Inr m show ?thesis by (simp add: hill_step_def)
  next
    case sc: (Inr new_score)
    from assms Inr m sc
    have "if new_score \<ge> best_score then b' = b1 \<and> best' = new_score
          else b' = b1\<lparr>tiles := (tiles b1)(s \<mapsto> old)\<rparr> \<and> best' = best_score"
      by (simp add: hill_step_def split: if_splits)
    then have "if new_score \<ge> best_score then b' = b1 \<and> best' = new_score
          else b' = b \<and> best' = best_score"
      unfolding undo .
    with s c old sc show ?thesis unfolding b1 by blast
  qed
qed

lemma board_score_returns:
  assumes "board_of_size n b" and "\<forall>w \<in> WORDS. length w \<le> 106"
  shows "\<exists>v. board_score b words prefixes WORDS = Inr v"
proof -
  from find_words_total [OF assms(1)] obtain F where "find_words b words prefixes = Inr F" ..
  with total_score_returns [OF assms(2), of F] show ?thesis by (simp add: board_score_def)
qed

lemma hill_step_returns:
  assumes wf: "board_of_size n b" and n: "0 < n" and W: "\<forall>w \<in> WORDS. length w \<le> 106"
  shows "\<exists>b' best'. hill_step words prefixes WORDS r (b, best_score) = Inr (b', best')"
proof -
  from wf n have ne: "squares b \<noteq> []"
    using length_row_major [of n] by (auto simp: board_of_size_def)
  then obtain s where s: "choice (squares b) (fst r) = Inr s" by (simp add: choice_def)
  then have "s \<in> set (squares b)" by (rule choice_mem)
  with wf have "in_grid n s" by (simp add: board_of_size_def in_grid_row_major)
  from board_of_size_tile [OF wf this] obtain old where old: "tiles b s = Some old" ..
  obtain c where c: "choice LETTERS (snd r) = Inr c" by (simp add: choice_def LETTERS_def)
  from s old c have m: "mutate_boggle b r = Inr (b\<lparr>tiles := (tiles b)(s \<mapsto> [c])\<rparr>, s, old)"
    by (simp add: mutate_boggle_def)
  from mutate_boggle_board_of_size(1) [OF m wf] have "board_of_size n (b\<lparr>tiles := (tiles b)(s \<mapsto> [c])\<rparr>)" .
  from board_score_returns [OF this W] obtain v
    where "board_score (b\<lparr>tiles := (tiles b)(s \<mapsto> [c])\<rparr>) words prefixes WORDS = Inr v" ..
  with m show ?thesis by (simp add: hill_step_def)
qed

lemma hill_step_board_of_size:
  assumes "hill_step words prefixes WORDS r (b, best) = Inr (b', best')" and "board_of_size n b"
  shows "board_of_size n b'"
proof -
  from hill_step_cases [OF assms(1)] obtain s c old_letter
    where s: "choice (squares b) (fst r) = Inr s" and old: "tiles b s = Some old_letter"
      and b': "b' = b\<lparr>tiles := (tiles b)(s \<mapsto> [c])\<rparr> \<or> b' = b"
    by (auto split: if_splits)
  from old have "insert s (dom (tiles b)) = dom (tiles b)" by auto
  with assms(2) have "board_of_size n (b\<lparr>tiles := (tiles b)(s \<mapsto> [c])\<rparr>)"
    by (simp add: board_of_size_def)
  with b' assms(2) show ?thesis by auto
qed

lemma hill_loop_board_of_size:
  "hill_loop k words prefixes WORDS rnd (b, best) = Inr (b', best') \<Longrightarrow> board_of_size n b
    \<Longrightarrow> board_of_size n b'"
proof (induction k arbitrary: rnd b best)
  case 0
  then show ?case by simp
next
  case (Suc k)
  from Suc.prems(1) obtain b1 best1
    where st: "hill_step words prefixes WORDS (rnd 0) (b, best) = Inr (b1, best1)"
      and l: "hill_loop k words prefixes WORDS (\<lambda>i. rnd (Suc i)) (b1, best1) = Inr (b', best')"
    by (auto split: sum.splits)
  from hill_step_board_of_size [OF st Suc.prems(2)] have "board_of_size n b1" .
  from Suc.IH [OF l this] show ?case .
qed

lemma boggle_hill_climbing_board_of_size:
  assumes "boggle_hill_climbing b words prefixes WORDS repeat rnd = Inr b'"
  shows "\<exists>n. board_of_size n b'"
proof -
  from assms obtain ts c best best' where c: "Board_init (Some ts) = Inr c"
    and l: "hill_loop repeat words prefixes WORDS rnd (c, best) = Inr (b', best')"
    by (auto simp: boggle_hill_climbing_def split: sum.splits)
  from hill_loop_board_of_size [OF l Board_init_board_of_size [OF c]] show ?thesis ..
qed

lemma qat_step_accept:
  "choice (squares qat_board) 0 = Inr (0, 0)" "choice LETTERS 83 = Inr CHR ''Q''"
  "board_score (qat_board\<lparr>tiles := (tiles qat_board)((0, 0) \<mapsto> ''Q'')\<rparr>)
     {''QAT'', ''SAT''} {''Q'', ''QA'', ''S'', ''SA''} {''QAT'', ''SAT''} = Inr 2"
  by code_simp+

lemma qat_step_reject:
  "choice LETTERS 0 = Inr CHR ''A''"
  "board_score (qat_board\<lparr>tiles := (tiles qat_board)((0, 0) \<mapsto> ''A'')\<rparr>)
     {''QAT'', ''SAT''} {''Q'', ''QA'', ''S'', ''SA''} {''QAT'', ''SAT''} = Inr 1"
  by code_simp+

text \<open>
  Claim C5. A pass of the loop that returns has drawn a square \<open>s\<close> of the board and a
  letter \<open>c\<close> of \<open>LETTERS\<close>, written \<open>c\<close> on \<open>s\<close>, and scored the mutated board afresh
  with \<open>find_words\<close> and \<open>total_score\<close>. When the new score is at least the best score,
  the mutated board is kept and the best score becomes the new score; otherwise the old
  tile is written back, which gives the board from before the pass, and the best score
  stays. On a board of size \<open>n > 0\<close>, with no word of more than 106 letters, the pass does
  return.
\<close>

theorem hill_step_accepts_ties:
  "(hill_step words prefixes WORDS r (b, best_score) = Inr (b', best') \<longrightarrow>
      (\<exists>s c old_letter new_score.
         choice (squares b) (fst r) = Inr s \<and> choice LETTERS (snd r) = Inr c
         \<and> tiles b s = Some old_letter
         \<and> board_score (b\<lparr>tiles := (tiles b)(s \<mapsto> [c])\<rparr>) words prefixes WORDS = Inr new_score
         \<and> (if new_score \<ge> best_score
              then b' = b\<lparr>tiles := (tiles b)(s \<mapsto> [c])\<rparr> \<and> best' = new_score
              else b' = b \<and> best' = best_score)))
   \<and> (board_of_size n b \<and> 0 < n \<and> (\<forall>w \<in> WORDS. length w \<le> 106) \<longrightarrow>
      (\<exists>b'' best''. hill_step words prefixes WORDS r (b, best_score) = Inr (b'', best'')))"
  using hill_step_cases [of words prefixes WORDS r b best_score b' best']
    hill_step_returns [of n b WORDS words prefixes r best_score]
  by blast

theorem hill_step_accepts_ties_witness:
  "(\<exists>b'. hill_step {''QAT'', ''SAT''} {''Q'', ''QA'', ''S'', ''SA''} {''QAT'', ''SAT''} (0, 83) (qat_board, 2)
        = Inr (b', 2) \<and> tiles b' (0, 0) = Some ''Q'')
   \<and> hill_step {''QAT'', ''SAT''} {''Q'', ''QA'', ''S'', ''SA''} {''QAT'', ''SAT''} (0, 0) (qat_board, 2)
        = Inr (qat_board, 2)"
proof -
  let ?W = "{''QAT'', ''SAT''}" and ?P = "{''Q'', ''QA'', ''S'', ''SA''}"
  have W: "\<forall>w \<in> ?W. length w \<le> 106" by simp
  have 1: "\<exists>b'. hill_step ?W ?P ?W (0, 83) (qat_board, 2) = Inr (b', 2) \<and> tiles b' (0, 0) = Some ''Q''"
  proof -
    from hill_step_accepts_ties [of ?W ?P ?W "(0, 83)" qat_board 2 _ _ 2] qat_board_of_size W
    obtain b' best' where ev: "hill_step ?W ?P ?W (0, 83) (qat_board, 2) = Inr (b', best')" by fastforce
    from hill_step_accepts_ties [of ?W ?P ?W "(0, 83)" qat_board 2 b' best' 2] ev
    have "best' = 2 \<and> tiles b' (0, 0) = Some ''Q''"
      using qat_step_accept by auto
    with ev show ?thesis by blast
  qed
  have 2: "hill_step ?W ?P ?W (0, 0) (qat_board, 2) = Inr (qat_board, 2)"
  proof -
    from hill_step_accepts_ties [of ?W ?P ?W "(0, 0)" qat_board 2 _ _ 2] qat_board_of_size W
    obtain b' best' where ev: "hill_step ?W ?P ?W (0, 0) (qat_board, 2) = Inr (b', best')" by fastforce
    from hill_step_accepts_ties [of ?W ?P ?W "(0, 0)" qat_board 2 b' best' 2] ev
    have "b' = qat_board \<and> best' = 2"
      using qat_step_accept(1) qat_step_reject by auto
    with ev show ?thesis by simp
  qed
  from 1 2 show ?thesis ..
qed

subsection \<open>The score over the run of the hill climber\<close>

lemma hill_step_score:
  assumes "hill_step words prefixes WORDS r (b, best) = Inr (b', best')"
    and "board_score b words prefixes WORDS = Inr best"
  shows "board_score b' words prefixes WORDS = Inr best' \<and> best \<le> best'"
proof -
  from hill_step_cases [OF assms(1)] obtain s c new_score
    where sc: "board_score (b\<lparr>tiles := (tiles b)(s \<mapsto> [c])\<rparr>) words prefixes WORDS = Inr new_score"
      and r: "if new_score \<ge> best then b' = b\<lparr>tiles := (tiles b)(s \<mapsto> [c])\<rparr> \<and> best' = new_score
              else b' = b \<and> best' = best"
    by blast
  show ?thesis
  proof (cases "new_score \<ge> best")
    case True
    with r sc show ?thesis by simp
  next
    case False
    with r assms(2) show ?thesis by simp
  qed
qed

lemma hill_loop_score:
  "hill_loop k words prefixes WORDS rnd (b, best) = Inr (b', best')
    \<Longrightarrow> board_score b words prefixes WORDS = Inr best
    \<Longrightarrow> board_score b' words prefixes WORDS = Inr best' \<and> best \<le> best'"
proof (induction k arbitrary: rnd b best)
  case 0
  then show ?case by simp
next
  case (Suc k)
  from Suc.prems(1) obtain b1 best1
    where st: "hill_step words prefixes WORDS (rnd 0) (b, best) = Inr (b1, best1)"
      and l: "hill_loop k words prefixes WORDS (\<lambda>i. rnd (Suc i)) (b1, best1) = Inr (b', best')"
    by (auto split: sum.splits)
  from hill_step_score [OF st Suc.prems(2)]
  have 1: "board_score b1 words prefixes WORDS = Inr best1" and 2: "best \<le> best1" by simp_all
  from Suc.IH [OF l 1] 2 show ?case by simp
qed

lemma tiles_in_order_map:
  "\<forall>s \<in> set ss. tiles b s \<noteq> None \<Longrightarrow> tiles_in_order b ss = Inr (map (\<lambda>s. the (tiles b s)) ss)"
  by (induction ss) auto

lemma keep_letters_id: "\<forall>t \<in> set ts. kept_as_is t \<Longrightarrow> keep_letters ts = ts"
  by (induction ts) (auto simp: keep_letters_def kept_as_is_def)

lemma copy_same:
  assumes wf: "board_of_size n b" and st: "\<forall>t \<in> ran (tiles b). kept_as_is t"
    and ts: "tiles_in_order b (squares b) = Inr ts"
  shows "Board_init (Some ts) = Inr b"
proof -
  let ?sq = "row_major n"
  from wf have sq: "squares b = ?sq" and nb: "board_neighbors b = map (\<lambda>s. (s, neighbors s n)) ?sq"
    and d: "dom (tiles b) = set ?sq"
    by (simp_all add: board_of_size_def)
  from d have "\<forall>s \<in> set ?sq. tiles b s \<noteq> None" by auto
  from tiles_in_order_map [OF this] ts sq have ts_eq: "ts = map (\<lambda>s. the (tiles b s)) ?sq" by simp
  have "set ts \<subseteq> ran (tiles b)" using ts by (rule tiles_in_order_ran)
  with st have "keep_letters ts = ts" by (intro keep_letters_id) blast
  moreover have len: "length ts = n * n" by (simp add: ts_eq length_row_major)
  moreover have "Map.empty(?sq [\<mapsto>] ts) = tiles b"
  proof
    fix k
    show "(Map.empty(?sq [\<mapsto>] ts)) k = tiles b k"
    proof (cases "k \<in> set ?sq")
      case False
      with d have "tiles b k = None" by blast
      with False show ?thesis by simp
    next
      case True
      then obtain i where i: "i < length ?sq" and k: "k = ?sq ! i" by (auto simp: in_set_conv_nth)
      from i len have "(Map.empty(?sq [\<mapsto>] ts)) (?sq ! i) = Some (ts ! i)"
        by (intro upds_nth) (simp_all add: distinct_row_major length_row_major)
      moreover from True d obtain t where "tiles b k = Some t" by blast
      ultimately show ?thesis using i k by (simp add: ts_eq)
    qed
  qed
  ultimately have "Board_init (Some ts) = Inr \<lparr>squares = squares b, board_neighbors = board_neighbors b, tiles = tiles b\<rparr>"
    by (simp add: Let_def isqrt_square sq nb)
  then show ?thesis by simp
qed

text \<open>
  On a board of size \<open>n\<close> whose tiles the constructor keeps as they are, the copy made at
  the start is the board itself, and the board returned scores at least as much as the
  board passed in.
\<close>

lemma boggle_hill_climbing_monotone:
  assumes wf: "board_of_size n b" and st: "\<forall>t \<in> ran (tiles b). kept_as_is t"
    and run: "boggle_hill_climbing b words prefixes WORDS repeat rnd = Inr b'"
  shows "\<exists>v v'. board_score b words prefixes WORDS = Inr v
           \<and> board_score b' words prefixes WORDS = Inr v' \<and> v \<le> v'"
proof -
  from run obtain ts c best best' where ts: "tiles_in_order b (squares b) = Inr ts"
    and c: "Board_init (Some ts) = Inr c"
    and sc: "board_score c words prefixes WORDS = Inr best"
    and l: "hill_loop repeat words prefixes WORDS rnd (c, best) = Inr (b', best')"
    by (auto simp: boggle_hill_climbing_def split: sum.splits)
  from copy_same [OF wf st ts] c have "c = b" by simp
  with sc l hill_loop_score [of repeat words prefixes WORDS rnd b best b' best'] show ?thesis by blast
qed

text \<open>
  Claim C4, at a board with a bare Q. With the words QAT and SAT, start from
  \<^verbatim>\<open>Board('XATS')\<close>, the rows \<open>X A\<close> and \<open>T S\<close>. One pass of the hill climber that draws
  the square \<open>(0, 0)\<close> and letter number 83 of \<open>LETTERS\<close>, a Q, returns the board \<open>G\<close> with
  rows \<open>Q A\<close> and \<open>T S\<close>; it scores 2. The hill climber called on \<open>G\<close> with no pass at all
  returns the rows \<open>QU A\<close> and \<open>T S\<close>, which score 1: the copy through the constructor
  wrote QU for the Q that \<open>mutate_boggle\<close> had written, and the board returned scores
  less than the board passed in.
\<close>

theorem hill_climbing_from_Q_board:
  "(case Board_init (Some [''X'', ''A'', ''T'', ''S'']) of
      Inl e \<Rightarrow> False
    | Inr b0 \<Rightarrow>
        (case boggle_hill_climbing b0 {''QAT'', ''SAT''} {''Q'', ''QA'', ''S'', ''SA''} {''QAT'', ''SAT''}
                1 (\<lambda>i. (0, 83)) of
           Inl e \<Rightarrow> False
         | Inr G \<Rightarrow>
             map (tiles G) (squares G) = [Some ''Q'', Some ''A'', Some ''T'', Some ''S'']
             \<and> board_score G {''QAT'', ''SAT''} {''Q'', ''QA'', ''S'', ''SA''} {''QAT'', ''SAT''} = Inr 2
             \<and> (case boggle_hill_climbing G {''QAT'', ''SAT''} {''Q'', ''QA'', ''S'', ''SA''} {''QAT'', ''SAT''}
                      0 (\<lambda>i. (0, 0)) of
                  Inl e \<Rightarrow> False
                | Inr G' \<Rightarrow>
                    map (tiles G') (squares G') = [Some ''QU'', Some ''A'', Some ''T'', Some ''S'']
                    \<and> board_score G' {''QAT'', ''SAT''} {''Q'', ''QA'', ''S'', ''SA''} {''QAT'', ''SAT''} = Inr 1)))"
  by code_simp

end
